theory Spec2Isabelle
  imports Main
begin

section \<open>The Roman/Arabic numeral converter of \<^verbatim>\<open>Cpp/lista_2/ArabRzym.cpp\<close>\<close>

text \<open>
  The C++ class \<^verbatim>\<open>ArabRzym\<close> holds four static functions over two global tables.
  The embedding follows the source function by function.
  \<^item> A C++ \<^verbatim>\<open>int\<close> is modelled as an unbounded \<open>int\<close>. The encoder only subtracts
    table values from a number between 1 and 4000, so nothing can overflow there. The
    decoder adds at most 1000 per character, so its accumulator stays inside 32 bits
    for every string of fewer than 2147483 characters; signed overflow beyond that is
    undefined behaviour in C++ and outside the model.
  \<^item> A \<^verbatim>\<open>std::string\<close> is a \<open>string\<close> (a list of 8-bit characters).
  \<^item> \<^verbatim>\<open>throw ArabRzymException(msg)\<close> becomes the left summand of a sum type; the
    three messages of the source are the three constructors of the exception type.
  \<^item> The outer loop of the encoder, \<^verbatim>\<open>while (arab != 0)\<close>, does not terminate on a
    negative number, so it is a partial function into \<open>option\<close>, where \<open>None\<close> stands
    for a run that never returns.
\<close>

subsection \<open>Tables and exceptions\<close>

text \<open>
  \<^verbatim>\<open>int liczbyArab[] = {1000, 900, 500, 400, 100, 90, 50, 40, 10, 9, 5, 4, 1};\<close>
  \<^verbatim>\<open>std::string liczbyRzym[] = {"M", "CM", "D", "CD", "C", "XC", "L", "XL", "X", "IX", "V", "IV", "I"};\<close>
\<close>

definition liczbyArab :: "int list" where
  "liczbyArab = [1000, 900, 500, 400, 100, 90, 50, 40, 10, 9, 5, 4, 1]"

definition liczbyRzym :: "string list" where
  "liczbyRzym = [''M'', ''CM'', ''D'', ''CD'', ''C'', ''XC'', ''L'', ''XL'', ''X'', ''IX'', ''V'', ''IV'', ''I'']"

text \<open>
  The one exception class of the source carries a message. The source throws three
  different messages:
  \<^item> \<open>OutOfRange\<close>: \<^verbatim>\<open>"Liczba z poza zakresu."\<close> (number out of range),
  \<^item> \<open>EmptyValue\<close>: \<^verbatim>\<open>"Wartosc pusta."\<close> (empty value),
  \<^item> \<open>InvalidRzym rzym\<close>: \<^verbatim>\<open>"Nieprawidlowa liczba rzymska: " + rzym\<close> (invalid Roman
    number), thrown both for an illegal character and for a failed re-encoding.
\<close>

datatype ArabRzymException = OutOfRange | EmptyValue | InvalidRzym string

subsection \<open>Character functions of \<^verbatim>\<open><cctype>\<close>\<close>

text \<open>
  The program never changes the locale, so \<^verbatim>\<open>toupper\<close> and \<^verbatim>\<open>isdigit\<close> are those of
  the "C" locale: \<^verbatim>\<open>toupper\<close> maps \<^verbatim>\<open>a..z\<close> (97..122) to \<^verbatim>\<open>A..Z\<close> and leaves every
  other character alone, \<^verbatim>\<open>isdigit\<close> holds on \<^verbatim>\<open>0..9\<close> (48..57).
\<close>

definition toupper :: "char \<Rightarrow> char" where
  "toupper c = (let n = (of_char c :: nat) in
     if 97 \<le> n \<and> n \<le> 122 then char_of (n - 32) else c)"

definition isdigit :: "char \<Rightarrow> bool" where
  "isdigit c = (let n = (of_char c :: nat) in 48 \<le> n \<and> n \<le> 57)"

subsection \<open>The classifiers\<close>

text \<open>
  \<^verbatim>\<open>isValidRzym\<close>: a loop over the characters that returns false at the first character
  whose upper-case form is none of I, V, X, L, C, D, M, and true at the end.
\<close>

fun isValidRzym :: "string \<Rightarrow> bool" where
  "isValidRzym [] = True"
| "isValidRzym (c # input) =
     (let rzym = toupper c in
      if rzym \<noteq> CHR ''I'' \<and> rzym \<noteq> CHR ''V'' \<and> rzym \<noteq> CHR ''X'' \<and> rzym \<noteq> CHR ''L'' \<and>
         rzym \<noteq> CHR ''C'' \<and> rzym \<noteq> CHR ''D'' \<and> rzym \<noteq> CHR ''M''
      then False
      else isValidRzym input)"

text \<open>\<^verbatim>\<open>isValidArab\<close>: false at the first character that is not a digit, true at the end.\<close>

fun isValidArab :: "string \<Rightarrow> bool" where
  "isValidArab [] = True"
| "isValidArab (arab # input) = (if \<not> isdigit arab then False else isValidArab input)"

subsection \<open>Table lookup\<close>

text \<open>
  \<^verbatim>\<open>getArabic\<close> runs \<open>j\<close> over all 13 rows without a break and keeps the value of the last
  row whose glyph equals the argument; 0 when no row matches.
\<close>

definition getArabic :: "string \<Rightarrow> int" where
  "getArabic rzymDigit =
     fold (\<lambda>j arabValue. if liczbyRzym ! j = rzymDigit then liczbyArab ! j else arabValue)
       [0..<13] 0"

subsection \<open>Arabic to Roman\<close>

text \<open>
  One pass of the \<^verbatim>\<open>for\<close> loop of \<^verbatim>\<open>arab2rzym\<close> with its inner \<^verbatim>\<open>while\<close> loop:
  \<^verbatim>\<open>for (int i = 0; i < 13; i++) while (liczbyArab[i] <= arab) { arab -= liczbyArab[i]; result += liczbyRzym[i]; }\<close>
  The state is the row \<open>i\<close>, the remaining amount and the string built so far. A step
  of the recursion is either one iteration of the inner loop (same row) or the move
  to the next row. The pass returns the remaining amount and the string.
\<close>

function for_loop :: "nat \<Rightarrow> int \<Rightarrow> string \<Rightarrow> int \<times> string" where
  "for_loop i arab result =
     (if i < 13 then
        (if liczbyArab ! i \<le> arab
         then for_loop i (arab - liczbyArab ! i) (result @ liczbyRzym ! i)
         else for_loop (i + 1) arab result)
      else (arab, result))"
  by pat_completeness auto

lemma row_cases:
  "i < 13 \<Longrightarrow> i = 0 \<or> i = 1 \<or> i = 2 \<or> i = 3 \<or> i = 4 \<or> i = 5 \<or> i = 6 \<or> i = 7 \<or>
     i = 8 \<or> i = 9 \<or> i = 10 \<or> i = 11 \<or> i = (12::nat)"
  by arith

lemma liczbyArab_pos: "i < 13 \<Longrightarrow> 0 < liczbyArab ! i"
  using row_cases [of i] by (auto simp: liczbyArab_def)

termination for_loop
proof (relation "measures [\<lambda>(i, arab, result). 13 - i, \<lambda>(i, arab, result). nat arab]")
  show "wf (measures [\<lambda>(i, arab, result). 13 - i, \<lambda>(i, arab, result). nat arab])"
    by simp
next
  fix i :: nat and arab :: int and result :: string
  assume "i < 13" and "liczbyArab ! i \<le> arab"
  with liczbyArab_pos [of i]
  show "((i, arab - liczbyArab ! i, result @ liczbyRzym ! i), (i, arab, result))
        \<in> measures [\<lambda>(i, arab, result). 13 - i, \<lambda>(i, arab, result). nat arab]"
    by simp
next
  fix i :: nat and arab :: int and result :: string
  assume "i < 13"
  then show "((i + 1, arab, result), (i, arab, result))
        \<in> measures [\<lambda>(i, arab, result). 13 - i, \<lambda>(i, arab, result). nat arab]"
    by simp
qed

declare for_loop.simps [simp del]

text \<open>
  The outer loop \<^verbatim>\<open>while (arab != 0) { for ... }\<close>. On a negative amount the pass
  changes nothing and the loop runs forever: the value \<open>None\<close>.
\<close>

partial_function (option) outer_while :: "int \<Rightarrow> string \<Rightarrow> string option" where
  "outer_while arab result =
     (if arab \<noteq> 0
      then (case for_loop 0 arab result of (arab', result') \<Rightarrow> outer_while arab' result')
      else Some result)"

declare outer_while.simps [code]

text \<open>
  \<^verbatim>\<open>arab2rzym\<close>: the range check, then the loop from the empty string. The result is
  \<open>None\<close> if the call does not return, \<open>Some (Inl e)\<close> if it throws \<open>e\<close> and
  \<open>Some (Inr s)\<close> if it returns \<open>s\<close>.
\<close>

definition arab2rzym :: "int \<Rightarrow> (ArabRzymException + string) option" where
  "arab2rzym arab =
     (if arab \<le> 0 \<or> arab > 4000 then Some (Inl OutOfRange)
      else map_option Inr (outer_while arab ''''))"

subsection \<open>Roman to Arabic\<close>

text \<open>
  The summing loop of \<^verbatim>\<open>rzym2arab\<close>, from index \<open>i\<close> with the sum so far. At each
  index it looks up the single glyph; unless this is the last index it also looks up
  the two-character string starting there, and if that has a non-zero value it takes
  that value and skips one more character.
\<close>

function sum_loop :: "nat \<Rightarrow> string \<Rightarrow> int \<Rightarrow> int" where
  "sum_loop i rzym result =
     (if i < length rzym then
        (let arabValue = getArabic [rzym ! i] in
         if i \<noteq> length rzym - 1 then
           (if getArabic [rzym ! i, rzym ! (i + 1)] \<noteq> 0
            then sum_loop (i + 1 + 1) rzym (result + getArabic [rzym ! i, rzym ! (i + 1)])
            else sum_loop (i + 1) rzym (result + arabValue))
         else sum_loop (i + 1) rzym (result + arabValue))
      else result)"
  by pat_completeness auto

termination sum_loop
  by (relation "measure (\<lambda>(i, rzym, result). length rzym - i)") auto

declare sum_loop.simps [simp del]

text \<open>
  \<^verbatim>\<open>rzym2arab\<close>: the empty check, the upper-casing in place, the character check, the
  sum, and the comparison of the re-encoded sum with the upper-cased input. An
  exception thrown by the inner call of \<^verbatim>\<open>arab2rzym\<close> is not caught and leaves
  \<^verbatim>\<open>rzym2arab\<close> as it is.
\<close>

definition rzym2arab :: "string \<Rightarrow> (ArabRzymException + int) option" where
  "rzym2arab input =
     (if input = [] then Some (Inl EmptyValue)
      else
        (let rzym = map toupper input in
         if \<not> isValidRzym rzym then Some (Inl (InvalidRzym rzym))
         else
           (let result = sum_loop 0 rzym 0 in
            case arab2rzym result of
              None \<Rightarrow> None
            | Some (Inl e) \<Rightarrow> Some (Inl e)
            | Some (Inr encoded) \<Rightarrow>
                if encoded \<noteq> rzym then Some (Inl (InvalidRzym rzym))
                else Some (Inr result))))"

text \<open>
  The same summing loop written on the characters that remain, used only to reason
  about \<open>sum_loop\<close>: \<open>sum_loop i rzym result = scan (drop i rzym) result\<close> is
  proved below.
\<close>

fun scan :: "string \<Rightarrow> int \<Rightarrow> int" where
  "scan [] result = result"
| "scan [c] result = result + getArabic [c]"
| "scan (c # d # rest) result =
     (if getArabic [c, d] \<noteq> 0 then scan rest (result + getArabic [c, d])
      else scan (d # rest) (result + getArabic [c]))"

section \<open>Upper-casing and the classifiers\<close>

text \<open>Upper-casing twice is upper-casing once, and the classifier does not see it.\<close>

lemma toupper_idem: "toupper (toupper c) = toupper c"
proof (cases "97 \<le> (of_char c :: nat) \<and> (of_char c :: nat) \<le> 122")
  case True
  define n where "n = (of_char c :: nat)"
  with True have n: "97 \<le> n" "n \<le> 122" by simp_all
  then have "(n - 32) mod 256 = n - 32" by simp
  then have "(of_char (char_of (n - 32)) :: nat) = n - 32"
    by (simp add: of_char_of)
  moreover from n have "\<not> 97 \<le> n - 32" by arith
  ultimately have "toupper (char_of (n - 32)) = char_of (n - 32)"
    by (simp add: toupper_def Let_def)
  moreover from n have "toupper c = char_of (n - 32)"
    by (simp add: toupper_def n_def)
  ultimately show ?thesis
    by simp
next
  case False
  then have "toupper c = c"
    by (auto simp: toupper_def Let_def)
  then show ?thesis
    by simp
qed

lemma map_toupper_idem: "map toupper (map toupper s) = map toupper s"
  by (simp add: toupper_idem)

lemma isValidRzym_toupper: "isValidRzym (map toupper s) = isValidRzym s"
  by (induction s) (simp_all add: toupper_idem Let_def)

lemma isValidRzym_iff:
  "isValidRzym s = (\<forall>c \<in> set s. toupper c \<in> set ''IVXLCDM'')"
  by (induction s) (auto simp: Let_def)

lemma isValidArab_iff: "isValidArab s = (\<forall>c \<in> set s. isdigit c)"
  by (induction s) auto

section \<open>The encoder\<close>

text \<open>The three ways a step of the pass can go.\<close>

lemma for_loop_take:
  "i < 13 \<Longrightarrow> liczbyArab ! i \<le> arab \<Longrightarrow>
   for_loop i arab result = for_loop i (arab - liczbyArab ! i) (result @ liczbyRzym ! i)"
  by (subst for_loop.simps) simp

lemma for_loop_skip:
  "i < 13 \<Longrightarrow> \<not> liczbyArab ! i \<le> arab \<Longrightarrow> for_loop i arab result = for_loop (Suc i) arab result"
  by (subst for_loop.simps) simp

lemma for_loop_done: "\<not> i < 13 \<Longrightarrow> for_loop i arab result = (arab, result)"
  by (subst for_loop.simps) simp

text \<open>
  A pass started on a non-negative amount ends on a non-negative amount, and a pass
  that still visits the last row (value 1) ends below 1: it ends on exactly 0.
\<close>

lemma for_loop_nonneg: "0 \<le> arab \<Longrightarrow> 0 \<le> fst (for_loop i arab result)"
proof (induction i arab result rule: for_loop.induct)
  case (1 i arab result)
  show ?case
  proof (cases "i < 13")
    case False
    with "1.prems" show ?thesis by (simp add: for_loop_done)
  next
    case True
    show ?thesis
    proof (cases "liczbyArab ! i \<le> arab")
      case take: True
      with True "1.IH"(1) show ?thesis by (simp add: for_loop_take)
    next
      case skip: False
      with True "1.IH"(2) "1.prems" show ?thesis by (simp add: for_loop_skip)
    qed
  qed
qed

lemma for_loop_below_one: "i \<le> 12 \<Longrightarrow> fst (for_loop i arab result) < 1"
proof (induction i arab result rule: for_loop.induct)
  case (1 i arab result)
  from "1.prems" have lt: "i < 13" by simp
  show ?case
  proof (cases "liczbyArab ! i \<le> arab")
    case True
    with lt "1.IH"(1) "1.prems" show ?thesis by (simp add: for_loop_take)
  next
    case False
    show ?thesis
    proof (cases "i = 12")
      case True
      with False have "arab < 1" by (simp add: liczbyArab_def)
      with True False lt show ?thesis by (simp add: for_loop_skip for_loop_done)
    next
      case ne: False
      with "1.prems" have "i + 1 \<le> 12" by simp
      with False lt "1.IH"(2) show ?thesis by (simp add: for_loop_skip)
    qed
  qed
qed

lemma for_loop_zero: "0 \<le> arab \<Longrightarrow> fst (for_loop 0 arab result) = 0"
  using for_loop_nonneg [of arab 0 result] for_loop_below_one [of 0 arab result] by simp

text \<open>
  What a pass appends is a sequence of table glyphs whose rows never go back, and what
  it subtracts is the sum of their values.
\<close>

lemma for_loop_tokens:
  "\<exists>ts. sorted ts \<and> (\<forall>t \<in> set ts. i \<le> t \<and> t < 13) \<and>
        for_loop i arab result =
          (arab - sum_list (map ((!) liczbyArab) ts), result @ concat (map ((!) liczbyRzym) ts))"
proof (induction i arab result rule: for_loop.induct)
  case (1 i arab result)
  show ?case
  proof (cases "i < 13")
    case False
    then have "sorted ([]::nat list) \<and> (\<forall>t \<in> set []. i \<le> t \<and> t < 13) \<and>
        for_loop i arab result =
          (arab - sum_list (map ((!) liczbyArab) []), result @ concat (map ((!) liczbyRzym) []))"
      by (simp add: for_loop_done)
    then show ?thesis by blast
  next
    case True
    show ?thesis
    proof (cases "liczbyArab ! i \<le> arab")
      case take: True
      from "1.IH"(1) [OF True take] obtain ts where
        ts: "sorted ts" "\<forall>t \<in> set ts. i \<le> t \<and> t < 13"
        "for_loop i (arab - liczbyArab ! i) (result @ liczbyRzym ! i) =
           (arab - liczbyArab ! i - sum_list (map ((!) liczbyArab) ts),
            (result @ liczbyRzym ! i) @ concat (map ((!) liczbyRzym) ts))"
        by blast
      from ts True have "sorted (i # ts) \<and> (\<forall>t \<in> set (i # ts). i \<le> t \<and> t < 13)"
        by simp
      moreover from ts(3) True take have "for_loop i arab result =
          (arab - sum_list (map ((!) liczbyArab) (i # ts)),
           result @ concat (map ((!) liczbyRzym) (i # ts)))"
        by (simp add: for_loop_take)
      ultimately show ?thesis by blast
    next
      case skip: False
      from "1.IH"(2) [OF True skip] obtain ts where
        ts: "sorted ts" "\<forall>t \<in> set ts. i + 1 \<le> t \<and> t < 13"
        "for_loop (i + 1) arab result =
           (arab - sum_list (map ((!) liczbyArab) ts), result @ concat (map ((!) liczbyRzym) ts))"
        by blast
      from ts(2) have "\<forall>t \<in> set ts. i \<le> t \<and> t < 13" by auto
      moreover from ts(3) True skip have "for_loop i arab result =
           (arab - sum_list (map ((!) liczbyArab) ts), result @ concat (map ((!) liczbyRzym) ts))"
        by (simp add: for_loop_skip)
      ultimately show ?thesis using ts(1) by blast
    qed
  qed
qed

text \<open>On a positive amount the outer loop runs the pass once and stops.\<close>

lemma outer_while_pass:
  assumes "0 < arab"
  shows "outer_while arab result = Some (snd (for_loop 0 arab result))"
proof -
  from assms have z: "fst (for_loop 0 arab result) = 0"
    by (simp add: for_loop_zero)
  obtain a r where ar: "for_loop 0 arab result = (a, r)" by (cases "for_loop 0 arab result")
  with z have "a = 0" by simp
  have "outer_while arab result = outer_while a r"
    using assms ar by (subst outer_while.simps) simp
  also have "\<dots> = Some r"
    using \<open>a = 0\<close> by (subst outer_while.simps) simp
  finally show ?thesis using ar by simp
qed

lemma arab2rzym_in_range:
  "0 < arab \<Longrightarrow> arab \<le> 4000 \<Longrightarrow> arab2rzym arab = Some (Inr (snd (for_loop 0 arab '''')))"
  by (simp add: arab2rzym_def outer_while_pass)

section \<open>The decoder\<close>

lemma sum_loop_scan: "sum_loop i rzym result = scan (drop i rzym) result"
proof (induction i rzym result rule: sum_loop.induct)
  case (1 i rzym result)
  show ?case
  proof (cases "i < length rzym")
    case False
    then show ?thesis by (subst sum_loop.simps) simp
  next
    case True
    then have d1: "drop i rzym = rzym ! i # drop (i + 1) rzym"
      by (simp add: Cons_nth_drop_Suc)
    show ?thesis
    proof (cases "i \<noteq> length rzym - 1")
      case last: False
      with True have "drop (i + 1) rzym = []" by simp
      with d1 have "scan (drop i rzym) result = result + getArabic [rzym ! i]" by simp
      moreover from last True "1.IH"(3) [OF True refl]
      have "sum_loop i rzym result = result + getArabic [rzym ! i]"
        by (subst sum_loop.simps) (simp add: Let_def)
      ultimately show ?thesis by simp
    next
      case more: True
      with True have "i + 1 < length rzym" by arith
      then have d2: "drop (i + 1) rzym = rzym ! (i + 1) # drop (i + 1 + 1) rzym"
        by (simp add: Cons_nth_drop_Suc)
      show ?thesis
      proof (cases "getArabic [rzym ! i, rzym ! (i + 1)] \<noteq> 0")
        case pair: True
        from "1.IH"(1) [OF True refl more pair] pair more True d1 d2
        show ?thesis by (subst sum_loop.simps) (simp add: Let_def)
      next
        case single: False
        from "1.IH"(2) [OF True refl more single] single more True d1 d2
        show ?thesis by (subst sum_loop.simps) (simp add: Let_def)
      qed
    qed
  qed
qed

text \<open>The lookup as a chain of comparisons; the last matching row wins.\<close>

lemma rows: "[0..<13] = [0, 1, 2, 3, 4, 5, 6, 7, 8, 9, 10, 11, 12]"
  by code_simp

lemma getArabic_unfold:
  "getArabic x =
    (if x = ''I'' then 1 else if x = ''IV'' then 4 else if x = ''V'' then 5
     else if x = ''IX'' then 9 else if x = ''X'' then 10 else if x = ''XL'' then 40
     else if x = ''L'' then 50 else if x = ''XC'' then 90 else if x = ''C'' then 100
     else if x = ''CD'' then 400 else if x = ''D'' then 500 else if x = ''CM'' then 900
     else if x = ''M'' then 1000 else 0)"
  by (simp add: getArabic_def rows liczbyRzym_def liczbyArab_def)

lemma getArabic_nonneg: "0 \<le> getArabic x"
  by (simp add: getArabic_unfold)

lemma getArabic_le: "getArabic x \<le> 1000"
  by (simp add: getArabic_unfold)

lemma getArabic_glyph: "c \<in> set ''IVXLCDM'' \<Longrightarrow> 0 < getArabic [c]"
  by (auto simp: getArabic_unfold)

text \<open>
  The sum never goes down, it goes up on a non-empty string of glyphs, and it grows by
  at most 1000 per character, so that on a string of at most 2147483 characters the
  accumulator of the source stays within a 32-bit \<^verbatim>\<open>int\<close>.
\<close>

lemma scan_mono: "acc \<le> scan s acc"
proof (induction s acc rule: scan.induct)
  case (1 result)
  show ?case by simp
next
  case (2 c result)
  show ?case using getArabic_nonneg [of "[c]"] by simp
next
  case (3 c d rest result)
  show ?case
  proof (cases "getArabic [c, d] \<noteq> 0")
    case True
    with "3.IH"(1) getArabic_nonneg [of "[c, d]"] show ?thesis by simp
  next
    case False
    with "3.IH"(2) getArabic_nonneg [of "[c]"] show ?thesis by simp
  qed
qed

lemma scan_positive:
  assumes "s \<noteq> []" and "\<forall>c \<in> set s. 0 < getArabic [c]"
  shows "acc < scan s acc"
proof (cases s)
  case Nil
  with assms(1) show ?thesis by simp
next
  case (Cons c rest)
  show ?thesis
  proof (cases rest)
    case Nil
    with Cons assms(2) show ?thesis by simp
  next
    case more: (Cons d rest')
    show ?thesis
    proof (cases "getArabic [c, d] \<noteq> 0")
      case True
      with getArabic_nonneg [of "[c, d]"] have "0 < getArabic [c, d]" by simp
      moreover have "acc + getArabic [c, d] \<le> scan rest' (acc + getArabic [c, d])"
        by (rule scan_mono)
      ultimately show ?thesis using True Cons more by simp
    next
      case False
      from assms(2) Cons have "0 < getArabic [c]" by simp
      moreover have "acc + getArabic [c] \<le> scan (d # rest') (acc + getArabic [c])"
        by (rule scan_mono)
      ultimately show ?thesis using False Cons more by simp
    qed
  qed
qed

lemma scan_bound: "scan s acc \<le> acc + 1000 * int (length s)"
proof (induction s acc rule: scan.induct)
  case (1 result)
  show ?case by simp
next
  case (2 c result)
  show ?case using getArabic_le [of "[c]"] by simp
next
  case (3 c d rest result)
  show ?case
  proof (cases "getArabic [c, d] \<noteq> 0")
    case True
    with "3.IH"(1) getArabic_le [of "[c, d]"] show ?thesis by simp
  next
    case False
    with "3.IH"(2) getArabic_le [of "[c]"] show ?thesis by simp
  qed
qed

lemma sum_loop_int_range:
  "length rzym \<le> 2147483 \<Longrightarrow> 0 \<le> sum_loop 0 rzym 0 \<and> sum_loop 0 rzym 0 \<le> 2147483647"
  using scan_mono [of 0 rzym] scan_bound [of rzym 0] by (simp add: sum_loop_scan)

lemma valid_upper_positive:
  assumes "s \<noteq> []" and "isValidRzym s"
  shows "0 < sum_loop 0 (map toupper s) 0"
proof -
  from assms(2) have "\<forall>c \<in> set (map toupper s). c \<in> set ''IVXLCDM''"
    unfolding isValidRzym_iff by auto
  then have "\<forall>c \<in> set (map toupper s). 0 < getArabic [c]"
    using getArabic_glyph by blast
  moreover from assms(1) have "map toupper s \<noteq> []" by simp
  ultimately have "0 < scan (map toupper s) 0" by (rule scan_positive [rotated])
  then show ?thesis by (simp add: sum_loop_scan)
qed

text \<open>
  Reading back one glyph of the table: when the glyph is followed by nothing, or by a
  glyph of the same or a later row, the loop consumes exactly this glyph and adds its
  value. A one-character glyph never forms a table pair with the first character of
  what may follow it.
\<close>

lemma scan_token:
  assumes t: "t < 13"
    and rest: "rest = [] \<or> (\<exists>t' rest'. t \<le> t' \<and> t' < 13 \<and> rest = liczbyRzym ! t' @ rest')"
  shows "scan (liczbyRzym ! t @ rest) acc = scan rest (acc + liczbyArab ! t)"
proof (cases "rest = []")
  case True
  with row_cases [OF t] show ?thesis
    by (elim disjE) (simp_all add: liczbyRzym_def liczbyArab_def getArabic_unfold)
next
  case False
  with rest obtain t' rest' where t': "t \<le> t'" "t' < 13" and r: "rest = liczbyRzym ! t' @ rest'"
    by blast
  from row_cases [OF t] row_cases [OF t'(2)] t'(1) show ?thesis
    unfolding r
    by (elim disjE) (simp_all add: liczbyRzym_def liczbyArab_def getArabic_unfold)
qed

lemma scan_tokens:
  "sorted ts \<Longrightarrow> \<forall>t \<in> set ts. t < 13 \<Longrightarrow>
   scan (concat (map ((!) liczbyRzym) ts)) acc = acc + sum_list (map ((!) liczbyArab) ts)"
proof (induction ts arbitrary: acc)
  case Nil
  then show ?case by simp
next
  case (Cons t ts)
  have "concat (map ((!) liczbyRzym) ts) = [] \<or>
        (\<exists>t' rest'. t \<le> t' \<and> t' < 13 \<and> concat (map ((!) liczbyRzym) ts) = liczbyRzym ! t' @ rest')"
  proof (cases ts)
    case Nil
    then show ?thesis by simp
  next
    case (Cons t' ts')
    with Cons.prems show ?thesis by auto
  qed
  with Cons.prems have "scan (liczbyRzym ! t @ concat (map ((!) liczbyRzym) ts)) acc =
      scan (concat (map ((!) liczbyRzym) ts)) (acc + liczbyArab ! t)"
    by (intro scan_token) simp_all
  with Cons show ?case by simp
qed

section \<open>Decoding what the encoder wrote\<close>

lemma glyph_chars:
  assumes "t < 13" and "c \<in> set (liczbyRzym ! t)"
  shows "c \<in> set ''IVXLCDM''"
  using row_cases [OF assms(1)] assms(2) by (elim disjE) (auto simp: liczbyRzym_def)

lemma glyph_nonempty:
  assumes "t < 13"
  shows "liczbyRzym ! t \<noteq> []"
  using row_cases [OF assms] by (elim disjE) (simp_all add: liczbyRzym_def)

lemma toupper_glyph: "c \<in> set ''IVXLCDM'' \<Longrightarrow> toupper c = c"
  by (auto simp: toupper_def)

lemma tokens_chars:
  "\<forall>t \<in> set ts. t < 13 \<Longrightarrow> c \<in> set (concat (map ((!) liczbyRzym) ts)) \<Longrightarrow> c \<in> set ''IVXLCDM''"
  using glyph_chars by fastforce

lemma encode_decode:
  assumes enc: "arab2rzym n = Some (Inr s)"
  shows "rzym2arab s = Some (Inr n)"
proof -
  from enc have range: "0 < n" "n \<le> 4000"
    by (auto simp: arab2rzym_def split: if_splits)
  with enc have s: "s = snd (for_loop 0 n '''')"
    by (simp add: arab2rzym_in_range)
  obtain ts where ts: "sorted ts" "\<forall>t \<in> set ts. t < 13"
    and run: "for_loop 0 n '''' =
       (n - sum_list (map ((!) liczbyArab) ts), '''' @ concat (map ((!) liczbyRzym) ts))"
    using for_loop_tokens [of 0 n "''''"] by blast
  from run s have s_ts: "s = concat (map ((!) liczbyRzym) ts)" by simp
  from range(1) have "fst (for_loop 0 n '''') = 0" by (simp add: for_loop_zero)
  with run have total: "sum_list (map ((!) liczbyArab) ts) = n" by simp
  with range(1) have "ts \<noteq> []" by auto
  then obtain t ts' where "ts = t # ts'" by (cases ts) auto
  with ts(2) s_ts have nonempty: "s \<noteq> []" by (simp add: glyph_nonempty)
  from ts(2) s_ts have chars: "\<forall>c \<in> set s. c \<in> set ''IVXLCDM''"
    using tokens_chars by blast
  then have "\<forall>c \<in> set s. toupper c = c" using toupper_glyph by blast
  then have upper: "map toupper s = s" by (simp add: map_idI)
  from chars have valid: "isValidRzym s"
    unfolding isValidRzym_iff using toupper_glyph by metis
  from ts s_ts total have "sum_loop 0 s 0 = n"
    by (simp add: sum_loop_scan scan_tokens)
  with nonempty upper valid enc show ?thesis
    by (simp add: rzym2arab_def)
qed

section \<open>The claims\<close>

text \<open>
  Claim C1. For every integer \<open>n\<close> from 1 to 3999, \<^verbatim>\<open>arab2rzym(n)\<close> returns a string
  and \<^verbatim>\<open>rzym2arab\<close> of that string returns \<open>n\<close>; no exception is thrown on the way.
\<close>

theorem C1_round_trip:
  assumes "1 \<le> n" and "n \<le> 3999"
  shows "\<exists>s. arab2rzym n = Some (Inr s) \<and> rzym2arab s = Some (Inr n)"
proof -
  from assms have "arab2rzym n = Some (Inr (snd (for_loop 0 n '''')))"
    by (simp add: arab2rzym_in_range)
  then show ?thesis using encode_decode by blast
qed

theorem C1_round_trip_witness:
  "(1::int) \<le> 3999 \<and> (3999::int) \<le> 3999 \<and>
   (\<exists>s. arab2rzym 3999 = Some (Inr s) \<and> rzym2arab s = Some (Inr 3999))"
  using C1_round_trip [of 3999] by simp

text \<open>
  Claim C2 as stated, with the invalid-numeral exception on every such string, fails.
  The string \<^verbatim>\<open>"MMMMM"\<close> is non-empty, made of valid glyphs, already upper-case, and not
  the encoding of its sum 5000 (which has none: \<^verbatim>\<open>arab2rzym(5000)\<close> throws). On it
  \<^verbatim>\<open>rzym2arab\<close> does not throw the invalid-numeral exception: the range exception of
  the inner \<^verbatim>\<open>arab2rzym\<close> call leaves it uncaught.
\<close>

theorem C2_counterexample:
  "''MMMMM'' \<noteq> [] \<and> isValidRzym ''MMMMM'' \<and> map toupper ''MMMMM'' = ''MMMMM'' \<and>
   arab2rzym (sum_loop 0 (map toupper ''MMMMM'') 0) \<noteq> Some (Inr (map toupper ''MMMMM'')) \<and>
   rzym2arab ''MMMMM'' \<noteq> Some (Inl (InvalidRzym (map toupper ''MMMMM''))) \<and>
   rzym2arab ''MMMMM'' = Some (Inl OutOfRange)"
  by code_simp

text \<open>
  Claim C2, amended. Let \<open>s\<close> be a non-empty string of valid Roman glyphs, of at most
  2147483 characters, whose upper-cased form is not the encoding of its left-to-right
  sum. Then \<^verbatim>\<open>rzym2arab(s)\<close> throws: the invalid-numeral exception when the sum is at
  most 4000, the range exception when the sum is above 4000. In particular
  \<^verbatim>\<open>rzym2arab("IIII")\<close> throws the invalid-numeral exception and does not return 4.
\<close>

theorem C2_noncanonical_rejected:
  assumes "s \<noteq> []" and "isValidRzym s" and "length s \<le> 2147483"
    and "arab2rzym (sum_loop 0 (map toupper s) 0) \<noteq> Some (Inr (map toupper s))"
  shows "rzym2arab s =
           (if sum_loop 0 (map toupper s) 0 > 4000 then Some (Inl OutOfRange)
            else Some (Inl (InvalidRzym (map toupper s)))) \<and>
         rzym2arab ''IIII'' = Some (Inl (InvalidRzym ''IIII''))"
proof -
  define result where "result = sum_loop 0 (map toupper s) 0"
  from assms(1,2) have pos: "0 < result"
    unfolding result_def by (rule valid_upper_positive)
  from assms(2) have valid: "isValidRzym (map toupper s)"
    by (simp add: isValidRzym_toupper)
  have "rzym2arab s =
          (if result > 4000 then Some (Inl OutOfRange) else Some (Inl (InvalidRzym (map toupper s))))"
  proof (cases "result > 4000")
    case True
    then have "arab2rzym result = Some (Inl OutOfRange)" by (simp add: arab2rzym_def)
    with True assms(1) valid show ?thesis
      by (simp add: rzym2arab_def result_def [symmetric])
  next
    case False
    with pos have enc: "arab2rzym result = Some (Inr (snd (for_loop 0 result '''')))"
      by (simp add: arab2rzym_in_range)
    with assms(4) have "snd (for_loop 0 result '''') \<noteq> map toupper s"
      by (simp add: result_def)
    with False assms(1) valid enc show ?thesis
      by (simp add: rzym2arab_def result_def [symmetric])
  qed
  moreover have "rzym2arab ''IIII'' = Some (Inl (InvalidRzym ''IIII''))"
    by code_simp
  ultimately show ?thesis by (simp add: result_def)
qed

theorem C2_noncanonical_rejected_witness:
  "''VX'' \<noteq> [] \<and> isValidRzym ''VX'' \<and> length ''VX'' \<le> 2147483 \<and>
   arab2rzym (sum_loop 0 (map toupper ''VX'') 0) \<noteq> Some (Inr (map toupper ''VX'')) \<and>
   rzym2arab ''VX'' = Some (Inl (InvalidRzym ''VX''))"
proof -
  have h1: "''VX'' \<noteq> []" by simp
  have h2: "isValidRzym ''VX''" by code_simp
  have h3: "length ''VX'' \<le> 2147483" by simp
  have h4: "arab2rzym (sum_loop 0 (map toupper ''VX'') 0) \<noteq> Some (Inr (map toupper ''VX''))"
    by code_simp
  have h5: "map toupper ''VX'' = ''VX''" by code_simp
  have h6: "\<not> sum_loop 0 ''VX'' 0 > 4000" by code_simp
  from C2_noncanonical_rejected [OF h1 h2 h3 h4] h5 h6
  have "rzym2arab ''VX'' = Some (Inl (InvalidRzym ''VX''))" by simp
  with h1 h2 h3 h4 show ?thesis by blast
qed

text \<open>
  Claim C3. For every string \<open>s\<close> that \<^verbatim>\<open>arab2rzym\<close> returns on some input,
  \<^verbatim>\<open>rzym2arab(s)\<close> returns a number and \<^verbatim>\<open>arab2rzym\<close> of that number returns \<open>s\<close>; no
  exception is thrown on the way.
\<close>

theorem C3_decode_encode:
  assumes "arab2rzym n = Some (Inr s)"
  shows "\<exists>m. rzym2arab s = Some (Inr m) \<and> arab2rzym m = Some (Inr s)"
  using assms encode_decode by blast

theorem C3_decode_encode_witness:
  "arab2rzym 49 = Some (Inr ''XLIX'') \<and>
   (\<exists>m. rzym2arab ''XLIX'' = Some (Inr m) \<and> arab2rzym m = Some (Inr ''XLIX''))"
proof -
  have h: "arab2rzym 49 = Some (Inr ''XLIX'')" by code_simp
  from C3_decode_encode [OF h] h show ?thesis by blast
qed

text \<open>
  Claim C4. \<^verbatim>\<open>arab2rzym(n)\<close> throws the range exception exactly when \<open>n \<le> 0\<close> or
  \<open>n > 4000\<close>; for \<open>0 < n \<le> 4000\<close> it returns a string. It throws on 0 and on 4001.
\<close>

theorem C4_range_error:
  "(arab2rzym n = Some (Inl OutOfRange) \<longleftrightarrow> n \<le> 0 \<or> n > 4000) \<and>
   (0 < n \<and> n \<le> 4000 \<longrightarrow> (\<exists>s. arab2rzym n = Some (Inr s))) \<and>
   arab2rzym 0 = Some (Inl OutOfRange) \<and> arab2rzym 4001 = Some (Inl OutOfRange)"
proof -
  have "arab2rzym n = Some (Inr (snd (for_loop 0 n '''')))" if "0 < n" "n \<le> 4000"
    using that by (rule arab2rzym_in_range)
  moreover have "arab2rzym n = Some (Inl OutOfRange)" if "n \<le> 0 \<or> n > 4000"
    using that by (simp add: arab2rzym_def)
  moreover have "arab2rzym 0 = Some (Inl OutOfRange)" "arab2rzym 4001 = Some (Inl OutOfRange)"
    by (simp_all add: arab2rzym_def)
  ultimately show ?thesis
    by (cases "0 < n \<and> n \<le> 4000") auto
qed

theorem C4_range_error_witness:
  "(0::int) < 7 \<and> (7::int) \<le> 4000 \<and> arab2rzym 7 \<noteq> Some (Inl OutOfRange) \<and>
   (\<exists>s. arab2rzym 7 = Some (Inr s))"
  using C4_range_error [of 7] by simp

text \<open>
  Claim C5. \<^verbatim>\<open>rzym2arab("")\<close> throws the empty-value exception. On a non-empty string
  that has, after upper-casing, a character outside I, V, X, L, C, D, M it throws the
  invalid-Roman exception, whatever the sum of the string would be: the check comes
  before the summing loop. \<^verbatim>\<open>rzym2arab("abc")\<close> throws.
\<close>

theorem C5_empty_and_illegal:
  "rzym2arab '''' = Some (Inl EmptyValue) \<and>
   (s \<noteq> [] \<and> (\<exists>c \<in> set (map toupper s). c \<notin> set ''IVXLCDM'') \<longrightarrow>
      rzym2arab s = Some (Inl (InvalidRzym (map toupper s)))) \<and>
   rzym2arab ''abc'' = Some (Inl (InvalidRzym ''ABC''))"
proof -
  have "rzym2arab '''' = Some (Inl EmptyValue)"
    by (simp add: rzym2arab_def)
  moreover have "rzym2arab s = Some (Inl (InvalidRzym (map toupper s)))"
    if "s \<noteq> []" and "\<exists>c \<in> set (map toupper s). c \<notin> set ''IVXLCDM''"
  proof -
    from that(2) have "\<not> isValidRzym s"
      unfolding isValidRzym_iff by auto
    then have "\<not> isValidRzym (map toupper s)"
      by (simp add: isValidRzym_toupper)
    with that(1) show ?thesis by (simp add: rzym2arab_def)
  qed
  moreover have "rzym2arab ''abc'' = Some (Inl (InvalidRzym ''ABC''))"
    by code_simp
  ultimately show ?thesis by blast
qed

theorem C5_empty_and_illegal_witness:
  "''x1'' \<noteq> [] \<and> CHR ''1'' \<in> set (map toupper ''x1'') \<and> CHR ''1'' \<notin> set ''IVXLCDM'' \<and>
   rzym2arab ''x1'' = Some (Inl (InvalidRzym ''X1''))"
proof -
  have h1: "''x1'' \<noteq> []" by simp
  have up: "map toupper ''x1'' = ''X1''" by code_simp
  then have h2: "CHR ''1'' \<in> set (map toupper ''x1'')" by simp
  have h3: "CHR ''1'' \<notin> set ''IVXLCDM''" by simp
  from h2 h3 have "\<exists>c \<in> set (map toupper ''x1''). c \<notin> set ''IVXLCDM''" by blast
  with C5_empty_and_illegal [of "''x1''"] h1 up
  have "rzym2arab ''x1'' = Some (Inl (InvalidRzym ''X1''))" by simp
  with h1 h2 h3 show ?thesis by blast
qed

text \<open>
  Claim C7. The classifiers return a truth value on every string and throw nothing:
  \<^verbatim>\<open>isValidRzym\<close> holds exactly when every character is, in upper case, one of the
  seven glyphs, and \<^verbatim>\<open>isValidArab\<close> exactly when every character is a digit. Both hold
  on the empty string; \<^verbatim>\<open>isValidRzym("XYZ")\<close> and \<^verbatim>\<open>isValidArab("12a")\<close> are false.
\<close>

theorem C7_classifiers:
  "isValidRzym s = list_all (\<lambda>c. toupper c \<in> set ''IVXLCDM'') s \<and>
   isValidArab s = list_all isdigit s \<and>
   isValidRzym '''' = True \<and> isValidArab '''' = True \<and>
   isValidRzym ''XYZ'' = False \<and> isValidArab ''12a'' = False"
proof -
  have "isValidRzym s = list_all (\<lambda>c. toupper c \<in> set ''IVXLCDM'') s"
    by (simp add: isValidRzym_iff list_all_iff)
  moreover have "isValidArab s = list_all isdigit s"
    by (simp add: isValidArab_iff list_all_iff)
  moreover have "isValidRzym ''XYZ'' = False" by code_simp
  moreover have "isValidArab ''12a'' = False" by code_simp
  ultimately show ?thesis by simp
qed

text \<open>
  Claim C8. For \<open>0 < n \<le> 4000\<close> the encoding loop terminates. Every iteration of the
  inner loop makes the remaining amount strictly smaller, one pass over the table
  brings it from \<open>n\<close> to exactly 0, the outer loop then stops with the string of
  that pass, and \<^verbatim>\<open>arab2rzym(n)\<close> returns. (The pass itself, \<open>for_loop\<close>, is total by
  its termination proof.)
\<close>

theorem C8_encoding_terminates:
  assumes "0 < n" and "n \<le> 4000"
  shows "fst (for_loop 0 n result) = 0 \<and> fst (for_loop 0 n result) < n \<and>
         outer_while n result = Some (snd (for_loop 0 n result)) \<and>
         (\<exists>s. arab2rzym n = Some (Inr s)) \<and>
         (\<forall>i arab. i < 13 \<and> liczbyArab ! i \<le> arab \<longrightarrow> arab - liczbyArab ! i < arab)"
proof -
  from assms(1) have zero: "fst (for_loop 0 n result) = 0"
    by (simp add: for_loop_zero)
  moreover from zero assms(1) have "fst (for_loop 0 n result) < n" by simp
  moreover from assms(1) have "outer_while n result = Some (snd (for_loop 0 n result))"
    by (rule outer_while_pass)
  moreover from assms have "\<exists>s. arab2rzym n = Some (Inr s)"
    by (simp add: arab2rzym_in_range)
  moreover have "\<forall>i arab. i < 13 \<and> liczbyArab ! i \<le> arab \<longrightarrow> arab - liczbyArab ! i < arab"
    using liczbyArab_pos by auto
  ultimately show ?thesis by blast
qed

theorem C8_encoding_terminates_witness:
  "(0::int) < 3888 \<and> (3888::int) \<le> 4000 \<and> fst (for_loop 0 3888 '''') = 0 \<and>
   outer_while 3888 '''' = Some ''MMMDCCCLXXXVIII'' \<and>
   arab2rzym 3888 = Some (Inr ''MMMDCCCLXXXVIII'') \<and>
   (0::nat) < 13 \<and> liczbyArab ! 0 \<le> 3888 \<and> 3888 - liczbyArab ! 0 < 3888"
proof -
  have h1: "(0::int) < 3888" and h2: "(3888::int) \<le> 4000" by simp_all
  note inst = C8_encoding_terminates [OF h1 h2, of "''''"]
  have run: "snd (for_loop 0 3888 '''') = ''MMMDCCCLXXXVIII''" by code_simp
  have enc: "arab2rzym 3888 = Some (Inr ''MMMDCCCLXXXVIII'')" by code_simp
  have row: "(0::nat) < 13" "liczbyArab ! 0 \<le> 3888" by (simp_all add: liczbyArab_def)
  from inst have zero: "fst (for_loop 0 3888 '''') = 0" by blast
  from inst run have loop: "outer_while 3888 '''' = Some ''MMMDCCCLXXXVIII''" by simp
  from inst row have step: "3888 - liczbyArab ! 0 < 3888" by blast
  from h1 h2 zero loop enc row step show ?thesis by blast
qed

text \<open>
  Claim C9. \<^verbatim>\<open>rzym2arab\<close> and \<^verbatim>\<open>isValidRzym\<close> do not depend on the letter case of
  the input: on \<open>s\<close> and on the upper-cased \<open>s\<close>, \<^verbatim>\<open>rzym2arab\<close> returns the same
  value or throws the same exception, and \<^verbatim>\<open>isValidRzym\<close> gives the same answer.
  \<^verbatim>\<open>rzym2arab("mcmxciv")\<close> returns 1994.
\<close>

theorem C9_case_invariant:
  "rzym2arab s = rzym2arab (map toupper s) \<and>
   isValidRzym s = isValidRzym (map toupper s) \<and>
   rzym2arab ''mcmxciv'' = Some (Inr 1994)"
proof -
  have "rzym2arab s = rzym2arab (map toupper s)"
    by (simp add: rzym2arab_def map_toupper_idem del: map_map)
  moreover have "isValidRzym s = isValidRzym (map toupper s)"
    by (simp add: isValidRzym_toupper)
  moreover have "rzym2arab ''mcmxciv'' = Some (Inr 1994)"
    by code_simp
  ultimately show ?thesis by blast
qed

section \<open>Worked values\<close>

text \<open>
  Claim C6. Decoding \<^verbatim>\<open>"MCMXCIV"\<close> returns 1994 and encoding 1994 returns
  \<^verbatim>\<open>"MCMXCIV"\<close>; neither call throws.
\<close>

theorem C6_mcmxciv:
  "rzym2arab ''MCMXCIV'' = Some (Inr 1994) \<and> arab2rzym 1994 = Some (Inr ''MCMXCIV'')"
  by code_simp

text \<open>
  Claim C10. At the upper end of the accepted range, encoding 4000 returns four M
  glyphs, and decoding \<^verbatim>\<open>"MMMM"\<close> returns 4000 without an exception, so the round trip
  also holds at 4000.
\<close>

theorem C10_upper_boundary:
  "arab2rzym 4000 = Some (Inr ''MMMM'') \<and> rzym2arab ''MMMM'' = Some (Inr 4000)"
  by code_simp

end
